theory Spec2Isabelle
  imports Main "HOL-Library.Multiset" "HOL-Library.Char_ord" "HOL-Library.List_Lexorder"
begin

section \<open>The command line front end of umake (umake/ui/cli/__init__.py)\<close>

text \<open>
  Strings are \<open>char list\<close>s; every token, name and version string of this development
  is taken to be ASCII. Python exceptions are values of the type \<open>error\<close>, returned on
  the left of a sum.
\<close>

datatype error = ValueError | KeyError | EOFError

subsection \<open>Python built-ins used by the module\<close>

text \<open>
  \<open>s.startswith(p)\<close>, \<open>k in d.keys()\<close>, the truth value of a \<open>str\<close>-or-\<open>None\<close>
  variable (both \<open>None\<close> and the empty string are false), and \<open>os.path.sep\<close> on the
  POSIX systems the tool runs on.
\<close>

definition startswith :: "string \<Rightarrow> string \<Rightarrow> bool" where
  "startswith s p = (take (length p) s = p)"

definition has_key :: "('k \<rightharpoonup> 'v) \<Rightarrow> 'k \<Rightarrow> bool" where
  "has_key d k = (d k \<noteq> None)"

definition truthy :: "string option \<Rightarrow> bool" where
  "truthy v = (case v of None \<Rightarrow> False | Some s \<Rightarrow> s \<noteq> [])"

definition os_path_sep :: char where
  "os_path_sep = CHR ''/''"

text \<open>
  \<open>s.split('.')\<close>: the pieces between the separators; the empty string gives one empty
  piece. The second case of the inner \<open>case\<close> is never reached (a split is never empty).
\<close>

fun split :: "char \<Rightarrow> string \<Rightarrow> string list" where
  "split sep [] = [[]]"
| "split sep (c # cs) =
     (if c = sep then [] # split sep cs
      else (case split sep cs of
              s # ss \<Rightarrow> (c # s) # ss
            | [] \<Rightarrow> [[c]]))"

text \<open>
  \<open>int(s)\<close> on an ASCII string, base 10: surrounding whitespace (tab, line feed,
  vertical tab, form feed, carriage return, space) is stripped, one sign is allowed, then
  decimal digits, where single underscores may separate digits. Anything else raises
  \<open>ValueError\<close>, and so does a numeral of more digits than the interpreter's limit,
  which is 4300 unless the interpreter is configured otherwise.
\<close>

definition isspace :: "char \<Rightarrow> bool" where
  "isspace c = (c \<in> set [CHR 0x09, CHR 0x0A, CHR 0x0B, CHR 0x0C, CHR 0x0D, CHR 0x20])"

definition max_str_digits :: nat where
  "max_str_digits = 4300"

definition strip :: "string \<Rightarrow> string" where
  "strip s = rev (dropWhile isspace (rev (dropWhile isspace s)))"

definition is_digit :: "char \<Rightarrow> bool" where
  "is_digit c = (c \<in> set ''0123456789'')"

definition digit_val :: "char \<Rightarrow> nat" where
  "digit_val c = of_char c - 48"

fun py_digits :: "nat \<Rightarrow> string \<Rightarrow> nat option" where
  "py_digits n [] = Some n"
| "py_digits n (c # cs) =
     (if is_digit c then py_digits (10 * n + digit_val c) cs
      else if c = CHR ''_'' then
        (case cs of
           [] \<Rightarrow> None
         | d # ds \<Rightarrow> if is_digit d then py_digits (10 * n + digit_val d) ds else None)
      else None)"

definition py_nat :: "string \<Rightarrow> nat option" where
  "py_nat s =
     (case s of
        [] \<Rightarrow> None
      | c # cs \<Rightarrow>
          if is_digit c then
            (case py_digits (digit_val c) cs of
               None \<Rightarrow> None
             | Some n \<Rightarrow> if length (filter is_digit s) > max_str_digits then None else Some n)
          else None)"

definition py_int :: "string \<Rightarrow> error + int" where
  "py_int s =
     (case strip s of
        [] \<Rightarrow> Inl ValueError
      | c # cs \<Rightarrow>
          if c = CHR ''-'' then
            (case py_nat cs of None \<Rightarrow> Inl ValueError | Some n \<Rightarrow> Inr (- int n))
          else if c = CHR ''+'' then
            (case py_nat cs of None \<Rightarrow> Inl ValueError | Some n \<Rightarrow> Inr (int n))
          else
            (case py_nat (c # cs) of None \<Rightarrow> Inl ValueError | Some n \<Rightarrow> Inr (int n)))"

text \<open>\<open>list(map(int, parts))\<close>: the first segment that does not parse raises.\<close>

fun map_int :: "string list \<Rightarrow> error + int list" where
  "map_int [] = Inr []"
| "map_int (s # ss) =
     (case py_int s of
        Inl e \<Rightarrow> Inl e
      | Inr v \<Rightarrow> (case map_int ss of Inl e \<Rightarrow> Inl e | Inr vs \<Rightarrow> Inr (v # vs)))"

subsection \<open>is_first_version_higher\<close>

text \<open>
  The loop over \<open>zip(v1_parts, v2_parts)\<close>: \<open>Some r\<close> when an iteration returns \<open>r\<close>,
  \<open>None\<close> when the loop runs to its end.
\<close>

fun zip_loop :: "(int \<times> int) list \<Rightarrow> bool option" where
  "zip_loop [] = None"
| "zip_loop ((v1, v2) # rest) =
     (if v1 > v2 then Some True
      else if v1 < v2 then Some False
      else zip_loop rest)"

definition is_first_version_higher :: "string option \<Rightarrow> string option \<Rightarrow> error + bool" where
  "is_first_version_higher version1 version2 =
     (case version2 of
        None \<Rightarrow> Inr True
      | Some s2 \<Rightarrow>
          (case version1 of
             None \<Rightarrow> Inr False
           | Some s1 \<Rightarrow>
               (case map_int (split CHR ''.'' s1) of
                  Inl e \<Rightarrow> Inl e
                | Inr v1_parts \<Rightarrow>
                    (case map_int (split CHR ''.'' s2) of
                       Inl e \<Rightarrow> Inl e
                     | Inr v2_parts \<Rightarrow>
                         (case zip_loop (zip v1_parts v2_parts) of
                            Some r \<Rightarrow> Inr r
                          | None \<Rightarrow> Inr (length v1_parts > length v2_parts))))))"

text \<open>
  A version string whose segments are non-negative integers in plain decimal notation
  (\<open>digit_segments\<close>), one whose segments moreover stay within the limit of \<open>int\<close>
  (\<open>numeric_version\<close>), and the numbers the segments denote.
\<close>

definition decimal :: "string \<Rightarrow> nat" where
  "decimal s = foldl (\<lambda>n c. 10 * n + digit_val c) 0 s"

definition digit_segments :: "string \<Rightarrow> bool" where
  "digit_segments a = list_all (\<lambda>s. s \<noteq> [] \<and> list_all is_digit s) (split CHR ''.'' a)"

definition numeric_version :: "string \<Rightarrow> bool" where
  "numeric_version a =
     list_all (\<lambda>s. s \<noteq> [] \<and> list_all is_digit s \<and> length s \<le> max_str_digits)
       (split CHR ''.'' a)"

definition segments :: "string \<Rightarrow> int list" where
  "segments a = map (\<lambda>s. int (decimal s)) (split CHR ''.'' a)"

subsection \<open>The registry of categories (BaseCategory.categories)\<close>

text \<open>
  The registry is built outside this module; the functions below receive it as the
  parameter \<open>reg\<close>. A framework carries its command line name, whether it supports
  update checks, and what its two version queries return (\<open>None\<close> when the version
  cannot be found). A category maps names to frameworks and may have a default framework.
\<close>

record framework =
  prog_name :: string
  supports_update :: bool
  get_current_user_version :: "string \<Rightarrow> string option"
  get_latest_version :: "string option"

record category =
  frameworks :: "string \<rightharpoonup> framework"
  default_framework :: "framework option"

type_synonym registry = "string \<rightharpoonup> category"

subsection \<open>mangle_args_for_default_framework\<close>

text \<open>The local variables of the function.\<close>

record mangle_state =
  result_args :: "string list"
  skip_all :: bool
  pending_args :: "string list"
  category_name :: "string option"
  framework_completed :: bool
  args_to_append :: "string list"

definition initial_state :: mangle_state where
  "initial_state =
     \<lparr>result_args = [], skip_all = False, pending_args = [], category_name = None,
      framework_completed = False, args_to_append = []\<rparr>"

text \<open>
  One iteration of \<open>for arg in args\<close>. A \<open>continue\<close> is a branch that does not reach
  the final \<open>pending_args.append(arg)\<close>. The lookup
  \<open>BaseCategory.categories[category_name]\<close> raises when the key is missing.
\<close>

definition loop_body :: "registry \<Rightarrow> mangle_state \<Rightarrow> string \<Rightarrow> error + mangle_state" where
  "loop_body reg st arg =
     (if \<not> truthy (category_name st) \<and> (arg = ''--remove'' \<or> arg = ''-r'') then
        Inr (st\<lparr>args_to_append := args_to_append st @ [arg]\<rparr>)
      else if \<not> startswith arg ''-'' \<and> \<not> skip_all st then
        (if \<not> truthy (category_name st) then
           (if has_key reg arg then
              Inr (st\<lparr>category_name := Some arg,
                      result_args := result_args st @ pending_args st @ [arg],
                      pending_args := []\<rparr>)
            else
              Inr (st\<lparr>skip_all := True, pending_args := pending_args st @ [arg]\<rparr>))
         else if \<not> framework_completed st then
           (case Option.bind (category_name st) reg of
              None \<Rightarrow> Inl KeyError
            | Some cat \<Rightarrow>
                if has_key (frameworks cat) arg then
                  Inr (st\<lparr>framework_completed := True,
                          result_args := result_args st @ [arg]\<rparr>)
                else
                  (case default_framework cat of
                     Some dflt \<Rightarrow>
                       if os_path_sep \<in> set arg then
                         Inr (st\<lparr>framework_completed := True,
                                 result_args := result_args st @ [prog_name dflt],
                                 pending_args := pending_args st @ [arg]\<rparr>)
                       else
                         Inr (st\<lparr>framework_completed := True,
                                 pending_args := pending_args st @ [arg]\<rparr>)
                   | None \<Rightarrow>
                       Inr (st\<lparr>framework_completed := True, skip_all := True,
                               pending_args := pending_args st @ [arg]\<rparr>)))
         else
           Inr (st\<lparr>pending_args := pending_args st @ [arg]\<rparr>))
      else
        Inr (st\<lparr>pending_args := pending_args st @ [arg]\<rparr>))"

fun for_args :: "registry \<Rightarrow> mangle_state \<Rightarrow> string list \<Rightarrow> error + mangle_state" where
  "for_args reg st [] = Inr st"
| "for_args reg st (arg # args) =
     (case loop_body reg st arg of
        Inl e \<Rightarrow> Inl e
      | Inr st' \<Rightarrow> for_args reg st' args)"

text \<open>The code after the loop: the default framework of a category that ends the line.\<close>

definition after_loop :: "registry \<Rightarrow> mangle_state \<Rightarrow> error + string list" where
  "after_loop reg st =
     (if truthy (category_name st) \<and> \<not> framework_completed st then
        (case Option.bind (category_name st) reg of
           None \<Rightarrow> Inl KeyError
         | Some cat \<Rightarrow>
             (case default_framework cat of
                Some dflt \<Rightarrow>
                  Inr ((result_args st @ [prog_name dflt]) @ pending_args st @ args_to_append st)
              | None \<Rightarrow> Inr (result_args st @ pending_args st @ args_to_append st)))
      else Inr (result_args st @ pending_args st @ args_to_append st))"

definition mangle_args_for_default_framework :: "registry \<Rightarrow> string list \<Rightarrow> error + string list" where
  "mangle_args_for_default_framework reg args =
     (case for_args reg initial_state args of
        Inl e \<Rightarrow> Inl e
      | Inr st \<Rightarrow> after_loop reg st)"

text \<open>
  The argument vector \<open>main\<close> hands to \<open>parser.parse_args\<close>: \<open>sys.argv[1:]\<close>,
  rewritten unless the token \<open>--help\<close> is in it.
\<close>

definition arg_to_parse :: "registry \<Rightarrow> string list \<Rightarrow> error + string list" where
  "arg_to_parse reg argv =
     (if ''--help'' \<notin> set argv then mangle_args_for_default_framework reg argv
      else Inr argv)"

text \<open>
  Words for the statements below. An option token starts with a dash; the two remove
  flags are option tokens. A token is taken as the category when it is not an option
  token, is a key of the registry and is not the empty string (an empty category name
  would leave \<open>category_name\<close> false).
\<close>

definition is_option :: "string \<Rightarrow> bool" where
  "is_option arg = startswith arg ''-''"

definition is_remove :: "string \<Rightarrow> bool" where
  "is_remove arg = (arg = ''--remove'' \<or> arg = ''-r'')"

definition category_token :: "registry \<Rightarrow> string \<Rightarrow> bool" where
  "category_token reg c = (c \<noteq> [] \<and> \<not> is_option c \<and> has_key reg c)"

text \<open>A small registry for examples: category \<open>cat\<close>, frameworks \<open>dflt\<close> (the default) and \<open>fw\<close>.\<close>

definition example_framework :: "string \<Rightarrow> framework" where
  "example_framework n =
     \<lparr>prog_name = n, supports_update = True,
      get_current_user_version = (\<lambda>path. Some ''1.0''), get_latest_version = Some ''2.0''\<rparr>"

definition example_category :: category where
  "example_category =
     \<lparr>frameworks = [''dflt'' \<mapsto> example_framework ''dflt'', ''fw'' \<mapsto> example_framework ''fw''],
      default_framework = Some (example_framework ''dflt'')\<rparr>"

definition example_registry :: registry where
  "example_registry = [''cat'' \<mapsto> example_category]"

text \<open>
  A closed form of what the resolver emits after the category token, for the tokens
  \<open>post\<close> that follow it: the options before the first positional token stay pending;
  a known framework name is filed directly after the category; otherwise the default
  framework is inserted when the first positional token holds a path separator, or when
  there is no positional token at all. The loop is proved equal to it below.
\<close>

definition default_list :: "category \<Rightarrow> string list" where
  "default_list cat = (case default_framework cat of None \<Rightarrow> [] | Some dflt \<Rightarrow> [prog_name dflt])"

definition after_category :: "category \<Rightarrow> string list \<Rightarrow> string list" where
  "after_category cat post =
     (case dropWhile is_option post of
        [] \<Rightarrow> default_list cat @ post
      | t # rest \<Rightarrow>
          if has_key (frameworks cat) t then t # takeWhile is_option post @ rest
          else if os_path_sep \<in> set t then default_list cat @ post
          else post)"

text \<open>
  What the resolver would emit from a state, and the invariant of its loop over the
  tokens \<open>seen\<close> so far: the category name, once set, is a token that was seen and a key
  of the registry; the emitted tokens are the tokens seen, with at most the default
  framework of that category added, and that only once \<open>framework_completed\<close> is set.
\<close>

definition emitted :: "mangle_state \<Rightarrow> string list" where
  "emitted st = result_args st @ pending_args st @ args_to_append st"

definition resolver_inv :: "registry \<Rightarrow> string list \<Rightarrow> mangle_state \<Rightarrow> bool" where
  "resolver_inv reg seen st =
     ((case category_name st of
         None \<Rightarrow> True
       | Some c \<Rightarrow> c \<in> set seen \<and> has_key reg c) \<and>
      (mset (emitted st) = mset seen \<or>
       framework_completed st \<and>
       (\<exists>c cat dflt. category_name st = Some c \<and> c \<noteq> [] \<and> reg c = Some cat \<and>
          default_framework cat = Some dflt \<and>
          mset (emitted st) = add_mset (prog_name dflt) (mset seen))))"

text \<open>
  Which token the resolver takes as the category, read off the argument vector alone:
  the first token that is neither an option nor empty (the loop passes over options, and
  an empty token, even when it is a key of the registry, leaves \<open>category_name\<close>
  false). The second invariant of the loop ties \<open>category_name\<close> to that token.
\<close>

definition skippable :: "string \<Rightarrow> bool" where
  "skippable arg = (is_option arg \<or> arg = [])"

definition first_positional :: "string list \<Rightarrow> string option" where
  "first_positional args =
     (case dropWhile skippable args of [] \<Rightarrow> None | t # rest \<Rightarrow> Some t)"

definition category_inv :: "string list \<Rightarrow> mangle_state \<Rightarrow> bool" where
  "category_inv seen st =
     ((\<not> truthy (category_name st) \<and> \<not> skip_all st \<longrightarrow> list_all skippable seen) \<and>
      (\<forall>c. category_name st = Some c \<and> c \<noteq> [] \<longrightarrow> first_positional seen = Some c))"

subsection \<open>The update branch of main\<close>

text \<open>
  \<open>list_frameworks()\<close> is outside this module; its result is the parameter \<open>listing\<close>:
  per category a name and the entries of its frameworks. The dictionaries built by
  \<open>main\<close> are records: the installed frameworks (\<open>i_\<close>) and the outdated ones (\<open>o_\<close>).
\<close>

record framework_entry =
  framework_name :: string
  install_path :: string
  is_installed :: bool

record category_entry =
  listed_category_name :: string
  listed_frameworks :: "framework_entry list"

record installed_framework =
  i_framework_name :: string
  i_install_path :: string
  i_category_name :: string

record outdated_framework =
  o_framework_name :: string
  o_category_name :: string
  user_version :: "string option"
  latest_version :: "string option"
  is_outdated :: bool

text \<open>
  The list comprehension under \<open>sorted(..., key=lambda x: x['framework_name'])\<close>. Both
  Python's \<open>sorted\<close> and \<open>sort_key\<close> are stable, and strings are compared character by
  character, a proper prefix being smaller.
\<close>

definition installed_frameworks :: "category_entry list \<Rightarrow> installed_framework list" where
  "installed_frameworks listing =
     sort_key i_framework_name
       (concat (map (\<lambda>category.
          map (\<lambda>framework.
                 \<lparr>i_framework_name = framework_name framework,
                  i_install_path = install_path framework,
                  i_category_name = listed_category_name category\<rparr>)
              (filter is_installed (listed_frameworks category)))
          listing))"

text \<open>
  Lines 320-321: a framework is outdated when both versions are known and
  \<open>is_first_version_higher(latest_version, user_version)\<close> holds.
\<close>

definition outdated_check :: "string option \<Rightarrow> string option \<Rightarrow> error + bool" where
  "outdated_check latest user =
     (if latest \<noteq> None \<and> user \<noteq> None then is_first_version_higher latest user
      else Inr False)"

text \<open>
  The loop \<open>for installed_framework in installed_frameworks\<close>, returning
  \<open>outdated_frameworks\<close>. The download of the framework's page and the wait for it change
  nothing the loop reads but what \<open>get_latest_version\<close> then returns; the model starts
  from the fetches having completed.
\<close>

fun check_updates :: "registry \<Rightarrow> installed_framework list \<Rightarrow> error + outdated_framework list" where
  "check_updates reg [] = Inr []"
| "check_updates reg (installed # rest) =
     (if i_category_name installed = ''java'' \<or> i_framework_name installed = ''firefox-dev'' then
        check_updates reg rest
      else
        (case Option.bind (reg (i_category_name installed))
                (\<lambda>cat. frameworks cat (i_framework_name installed)) of
           None \<Rightarrow> Inl KeyError
         | Some framework \<Rightarrow>
             if supports_update framework then
               (case outdated_check (get_latest_version framework)
                       (get_current_user_version framework (i_install_path installed)) of
                  Inl e \<Rightarrow> Inl e
                | Inr outdated \<Rightarrow>
                    (case check_updates reg rest of
                       Inl e \<Rightarrow> Inl e
                     | Inr outdated_frameworks \<Rightarrow>
                         Inr (if outdated then
                                \<lparr>o_framework_name = i_framework_name installed,
                                 o_category_name = i_category_name installed,
                                 user_version =
                                   get_current_user_version framework (i_install_path installed),
                                 latest_version = get_latest_version framework,
                                 is_outdated = outdated\<rparr> # outdated_frameworks
                              else outdated_frameworks)))
             else check_updates reg rest))"

text \<open>
  What \<open>main\<close> does next is a list of events and the way it ends. The loop
  \<open>for outdated_framework in outdated_frameworks\<close> returns from \<open>main\<close> in its first
  iteration; \<open>sys.exit(0)\<close> behind it is reached when the loop has nothing to run over.
\<close>

datatype main_event =
    Print string
  | PrettyPrintVersions "outdated_framework list"
  | ParseArgs "string list"
  | NewCliUI
  | RunCommandForArgs "string list"

datatype main_result = SysExit nat | Return

fun reinvoke_loop :: "outdated_framework list \<Rightarrow> main_event list \<times> main_result" where
  "reinvoke_loop [] = ([], SysExit 0)"
| "reinvoke_loop (outdated_framework # rest) =
     ([ParseArgs [o_category_name outdated_framework, o_framework_name outdated_framework],
       NewCliUI,
       RunCommandForArgs [o_category_name outdated_framework, o_framework_name outdated_framework]],
      Return)"

definition update_branch :: "registry \<Rightarrow> category_entry list \<Rightarrow> error + main_event list \<times> main_result" where
  "update_branch reg listing =
     (case check_updates reg (installed_frameworks listing) of
        Inl e \<Rightarrow> Inl e
      | Inr outdated_frameworks \<Rightarrow>
          if length outdated_frameworks = 0 then
            Inr ([Print ''All packages are up-to-date.''], SysExit 0)
          else
            Inr (PrettyPrintVersions outdated_frameworks # fst (reinvoke_loop outdated_frameworks),
                 snd (reinvoke_loop outdated_frameworks)))"

text \<open>An example: two installed frameworks of the example category, both behind.\<close>

definition example_listing :: "category_entry list" where
  "example_listing =
     [\<lparr>listed_category_name = ''cat'',
       listed_frameworks =
         [\<lparr>framework_name = ''fw'', install_path = ''/opt/fw'', is_installed = True\<rparr>,
          \<lparr>framework_name = ''dflt'', install_path = ''/opt/dflt'', is_installed = True\<rparr>]\<rparr>]"

subsection \<open>CliUI._display\<close>

text \<open>
  The interaction classes live in \<open>umake.interactions\<close>; a value of \<open>content_type\<close> is an
  object with the attributes \<open>_display\<close> reads. A callback (\<open>run_callback\<close>, \<open>choose\<close>, here \<open>choose_answer\<close>)
  maps the answer to \<open>Some message\<close> when it raises \<open>InputError(message)\<close> and to \<open>None\<close>
  when it returns. \<open>Other\<close> is an object of any other class, with its string form. The
  order of the constructors is the order of the \<open>isinstance\<close> tests.
\<close>

datatype pulse = Pulsed | StopIteration | AttributeError

datatype content_type =
    InputText string string "string \<Rightarrow> string option"
  | LicenseAgreement string string "string \<Rightarrow> string option"
  | TextWithChoices string "string \<Rightarrow> string option"
  | DisplayMessage string
  | UnknownProgress bool pulse
  | Other string

datatype ui_event =
    ReadLineInput string string
  | Input string
  | PrintLine string
  | LogError string
  | NewProgressBar
  | BarNext
  | DelayedDisplay
  | MainLoopQuit nat

datatype display_result = ReturnNone | ReturnFalse | Raised error

text \<open>
  \<open>_display\<close> with the lines the terminal still has to give (\<open>input\<close> raises \<open>EOFError\<close>
  when there is none). The \<open>while True\<close> loop goes round again on \<open>InputError\<close>, having
  read one line, so the recursion is on the lines.
\<close>

fun display :: "content_type \<Rightarrow> string list \<Rightarrow> ui_event list \<times> display_result" where
  "display (InputText content default_input run_callback) [] =
     ([ReadLineInput (content @ '' '') default_input], Raised EOFError)"
| "display (InputText content default_input run_callback) (line # lines) =
     (case run_callback line of
        None \<Rightarrow> ([ReadLineInput (content @ '' '') default_input], ReturnNone)
      | Some e \<Rightarrow>
          (ReadLineInput (content @ '' '') default_input # LogError e #
             fst (display (InputText content default_input run_callback) lines),
           snd (display (InputText content default_input run_callback) lines)))"
| "display (LicenseAgreement content input choose_answer) [] =
     ([PrintLine content, Input input], Raised EOFError)"
| "display (LicenseAgreement content input choose_answer) (line # lines) =
     (case choose_answer line of
        None \<Rightarrow> ([PrintLine content, Input input], ReturnNone)
      | Some e \<Rightarrow>
          (PrintLine content # Input input # LogError e #
             fst (display (LicenseAgreement content input choose_answer) lines),
           snd (display (LicenseAgreement content input choose_answer) lines)))"
| "display (TextWithChoices prompt choose_answer) [] = ([Input prompt], Raised EOFError)"
| "display (TextWithChoices prompt choose_answer) (line # lines) =
     (case choose_answer line of
        None \<Rightarrow> ([Input prompt], ReturnNone)
      | Some e \<Rightarrow>
          (Input prompt # LogError e # fst (display (TextWithChoices prompt choose_answer) lines),
           snd (display (TextWithChoices prompt choose_answer) lines)))"
| "display (DisplayMessage text) lines = ([PrintLine text], ReturnNone)"
| "display (UnknownProgress bar bar_next) lines =
     ((if \<not> bar then [NewProgressBar] else []) @
      (case bar_next of Pulsed \<Rightarrow> [BarNext, DelayedDisplay] | _ \<Rightarrow> []),
      ReturnFalse)"
| "display (Other description) lines =
     ([LogError (''Unexcepted content type to display to CLI UI: '' @ description),
       MainLoopQuit 1],
      ReturnNone)"

text \<open>
  Modelled from the spec: \<open>MainLoop\<close> and its \<open>quit\<close> (\<open>umake.tools\<close>) are not in this
  module. The spec gives the loop the states Idle, Running and Quitting(exit_code);
  \<open>quit(exit_code)\<close> takes it to Quitting, and the code of that state is the exit status
  of the process.
\<close>

datatype mainloop = Idle | Running | Quitting nat

definition quit :: "nat \<Rightarrow> mainloop \<Rightarrow> mainloop" where
  "quit status_code loop = Quitting status_code"

fun mainloop_after :: "mainloop \<Rightarrow> ui_event list \<Rightarrow> mainloop" where
  "mainloop_after loop [] = loop"
| "mainloop_after loop (MainLoopQuit status_code # events) =
     mainloop_after (quit status_code loop) events"
| "mainloop_after loop (_ # events) = mainloop_after loop events"

fun exit_status :: "mainloop \<Rightarrow> nat option" where
  "exit_status (Quitting status_code) = Some status_code"
| "exit_status _ = None"

section \<open>Properties of the version comparator\<close>

lemma py_digits_all_digits:
  "list_all is_digit s \<Longrightarrow> py_digits n s = Some (foldl (\<lambda>n c. 10 * n + digit_val c) n s)"
  by (induction s arbitrary: n) simp_all

lemma digit_not_space: "is_digit c \<Longrightarrow> \<not> isspace c"
  by (auto simp: is_digit_def isspace_def)

lemma strip_digits:
  assumes "s \<noteq> []" "list_all is_digit s"
  shows "strip s = s"
proof -
  from assms obtain c cs where s: "s = c # cs" by (cases s) auto
  with assms have "\<not> isspace c" by (simp add: digit_not_space)
  then have 1: "dropWhile isspace s = s" by (simp add: s)
  from assms have "rev s \<noteq> []" "is_digit (hd (rev s))"
    by (simp_all add: hd_rev list_all_iff)
  then have "dropWhile isspace (rev s) = rev s"
    by (cases "rev s") (auto simp: digit_not_space)
  with 1 show ?thesis by (simp add: strip_def)
qed

lemma filter_all_digits: "list_all is_digit s \<Longrightarrow> filter is_digit s = s"
  by (induction s) simp_all

lemma py_nat_digits:
  assumes "s \<noteq> []" "list_all is_digit s"
  shows "py_nat s = (if length s > max_str_digits then None else Some (decimal s))"
proof -
  from assms obtain c cs where s: "s = c # cs" by (cases s) auto
  with assms have c: "is_digit c" and cs: "list_all is_digit cs" by simp_all
  have "py_digits (digit_val c) cs = Some (decimal s)"
    using py_digits_all_digits [OF cs] by (simp add: s decimal_def)
  moreover have "filter is_digit (c # cs) = c # cs"
    using filter_all_digits [OF assms(2)] by (simp only: s)
  ultimately show ?thesis
    using c by (simp add: py_nat_def s)
qed

lemma py_int_digits:
  assumes "s \<noteq> []" "list_all is_digit s"
  shows "py_int s =
           (if length s > max_str_digits then Inl ValueError else Inr (int (decimal s)))"
proof -
  from assms obtain c cs where s: "s = c # cs" by (cases s) auto
  with assms have c: "is_digit c" by simp
  from c have nosign: "c \<noteq> CHR ''-''" "c \<noteq> CHR ''+''" by (auto simp: is_digit_def)
  have "py_int s = (case py_nat s of None \<Rightarrow> Inl ValueError | Some n \<Rightarrow> Inr (int n))"
    using nosign strip_digits [OF assms] by (simp add: py_int_def s)
  then show ?thesis
    by (simp add: py_nat_digits [OF assms])
qed

lemma map_int_digits:
  "list_all (\<lambda>s. s \<noteq> [] \<and> list_all is_digit s \<and> length s \<le> max_str_digits) ss \<Longrightarrow>
   map_int ss = Inr (map (\<lambda>s. int (decimal s)) ss)"
  by (induction ss) (simp_all add: py_int_digits)

lemma zip_loop_differ:
  "x \<noteq> y \<Longrightarrow> zip_loop (zip (u @ x # v) (u @ y # w)) = Some (y < x)"
  by (induction u) auto

lemma zip_loop_prefix_left: "zip_loop (zip (ys @ v) ys) = None"
  by (induction ys) auto

lemma zip_loop_prefix_right: "zip_loop (zip xs (xs @ w)) = None"
  by (induction xs) auto

lemma map_int_segments: "numeric_version a \<Longrightarrow> map_int (split CHR ''.'' a) = Inr (segments a)"
  by (simp add: numeric_version_def segments_def map_int_digits)

lemma higher_numeric:
  assumes "numeric_version a" "numeric_version b"
  shows "is_first_version_higher (Some a) (Some b) =
           (case zip_loop (zip (segments a) (segments b)) of
              Some r \<Rightarrow> Inr r
            | None \<Rightarrow> Inr (length (segments a) > length (segments b)))"
  by (simp add: is_first_version_higher_def map_int_segments [OF assms(1)]
        map_int_segments [OF assms(2)])

text \<open>
  C1 (as the code has it). With the second version absent the first is higher, whatever
  the first is (absent too, or not even a version); with the first absent and the second
  present the first is not higher.
\<close>

theorem higher_absent:
  "is_first_version_higher a None = Inr True \<and>
   is_first_version_higher None (Some b) = Inr False"
  by (simp add: is_first_version_higher_def)

theorem higher_absent_witness:
  "is_first_version_higher (Some ''not a version'') None = Inr True \<and>
   is_first_version_higher None (Some ''1.0'') = Inr False"
  using higher_absent [of "Some ''not a version''" "''1.0''"] by simp

text \<open>C1 as stated fails when both versions are absent: the answer is \<open>True\<close>.\<close>

theorem higher_both_absent: "is_first_version_higher None None = Inr True"
  by (simp add: is_first_version_higher_def)

text \<open>
  C5 (as the code has it). For version strings whose segments are non-negative decimal
  integers of at most 4300 digits each, the first differing pair of segments decides;
  when one segment sequence is a strict prefix of the other, the longer one is the
  higher.
\<close>

theorem higher_segmentwise:
  assumes "numeric_version a" and "numeric_version b"
  shows "(segments a = u @ x # v \<and> segments b = u @ y # w \<and> x \<noteq> y \<longrightarrow>
            is_first_version_higher (Some a) (Some b) = Inr (y < x)) \<and>
         (segments a = segments b @ x # v \<longrightarrow>
            is_first_version_higher (Some a) (Some b) = Inr True) \<and>
         (segments b = segments a @ y # w \<longrightarrow>
            is_first_version_higher (Some a) (Some b) = Inr False)"
proof (intro conjI impI)
  assume h: "segments a = u @ x # v \<and> segments b = u @ y # w \<and> x \<noteq> y"
  then have "x \<noteq> y" and sa: "segments a = u @ x # v" and sb: "segments b = u @ y # w"
    by blast+
  from zip_loop_differ [OF \<open>x \<noteq> y\<close>, of u v w]
  have "zip_loop (zip (segments a) (segments b)) = Some (y < x)"
    by (simp only: sa sb)
  then show "is_first_version_higher (Some a) (Some b) = Inr (y < x)"
    by (simp only: higher_numeric [OF assms] option.case)
next
  assume h: "segments a = segments b @ x # v"
  then have "zip_loop (zip (segments a) (segments b)) = None"
    using zip_loop_prefix_left [of "segments b" "x # v"] by (simp only:)
  moreover from h have "length (segments a) > length (segments b)"
    by simp
  ultimately show "is_first_version_higher (Some a) (Some b) = Inr True"
    by (simp only: higher_numeric [OF assms] option.case)
next
  assume h: "segments b = segments a @ y # w"
  then have "zip_loop (zip (segments a) (segments b)) = None"
    using zip_loop_prefix_right [of "segments a" "y # w"] by (simp only:)
  moreover from h have "\<not> length (segments a) > length (segments b)"
    by simp
  ultimately show "is_first_version_higher (Some a) (Some b) = Inr False"
    by (simp only: higher_numeric [OF assms] option.case)
qed

theorem higher_segmentwise_witness:
  "numeric_version ''2.1.0'' \<and> numeric_version ''2.1'' \<and>
   numeric_version ''1.9'' \<and> numeric_version ''1.10'' \<and>
   is_first_version_higher (Some ''2.1.0'') (Some ''2.1'') = Inr True \<and>
   is_first_version_higher (Some ''1.9'') (Some ''1.10'') = Inr False"
proof -
  have nv: "numeric_version ''2.1.0''" "numeric_version ''2.1''"
    "numeric_version ''1.9''" "numeric_version ''1.10''"
    by (simp_all add: numeric_version_def is_digit_def max_str_digits_def)
  have sg: "segments ''2.1.0'' = [2, 1] @ 0 # []" "segments ''2.1'' = [2, 1]"
    "segments ''1.9'' = [1] @ 9 # []" "segments ''1.10'' = [1] @ 10 # []"
    by (simp_all add: segments_def decimal_def digit_val_def)
  from higher_segmentwise [OF nv(1) nv(2), where x = 0 and v = "[]"] sg(1,2)
  have 1: "is_first_version_higher (Some ''2.1.0'') (Some ''2.1'') = Inr True"
    by simp
  from higher_segmentwise [OF nv(3) nv(4), where u = "[1]" and x = 9 and v = "[]" and y = 10 and w = "[]"] sg(3,4)
  have 2: "is_first_version_higher (Some ''1.9'') (Some ''1.10'') = Inr False"
    by simp
  from nv 1 2 show ?thesis by simp
qed

text \<open>
  C5 as stated fails for a segment \<open>int\<close> refuses to read: a numeral of 4301 digits is
  a non-negative integer, and the comparison with \<open>1\<close> raises \<open>ValueError\<close>.
\<close>

lemma split_no_separator: "sep \<notin> set s \<Longrightarrow> split sep s = [s]"
  by (induction s) auto

lemma long_segment_raises:
  assumes "is_digit c" and "n > max_str_digits"
  shows "is_first_version_higher (Some (replicate n c)) (Some b) = Inl ValueError"
proof -
  let ?s = "replicate n c"
  from assms(1) have "c \<noteq> CHR ''.''" by (auto simp: is_digit_def)
  then have sp: "split CHR ''.'' ?s = [?s]" by (simp add: split_no_separator)
  from assms(2) have ne: "?s \<noteq> []" by auto
  from assms(1) have ad: "list_all is_digit ?s" by (simp add: list_all_iff)
  from py_int_digits [OF ne ad] assms(2) have "py_int ?s = Inl ValueError" by simp
  then show ?thesis by (simp add: is_first_version_higher_def sp)
qed

lemma long_segment_digits:
  assumes "is_digit c" and "n > 0"
  shows "digit_segments (replicate n c)"
proof -
  from assms(1) have "c \<noteq> CHR ''.''" by (auto simp: is_digit_def)
  then have sp: "split CHR ''.'' (replicate n c) = [replicate n c]"
    by (simp add: split_no_separator)
  from assms show ?thesis unfolding digit_segments_def sp by (simp add: list_all_iff)
qed

theorem higher_raises_on_long_segment:
  "digit_segments (replicate 4301 CHR ''1'') \<and> digit_segments ''1'' \<and>
   is_first_version_higher (Some (replicate 4301 CHR ''1'')) (Some ''1'') = Inl ValueError"
proof -
  have d: "is_digit CHR ''1''" by (simp add: is_digit_def)
  have 1: "digit_segments (replicate 4301 CHR ''1'')"
    by (rule long_segment_digits [OF d]) simp
  have 2: "digit_segments ''1''" by (simp add: digit_segments_def is_digit_def)
  have 3: "is_first_version_higher (Some (replicate 4301 CHR ''1'')) (Some ''1'') = Inl ValueError"
    by (rule long_segment_raises [OF d]) (simp add: max_str_digits_def)
  from 1 2 3 show ?thesis by (intro conjI)
qed

section \<open>Properties of the argument resolver\<close>

lemma loop_body_option_before:
  assumes "\<not> truthy (category_name st)" "is_option a"
  shows "loop_body reg st a =
           Inr (if is_remove a then st\<lparr>args_to_append := args_to_append st @ [a]\<rparr>
                else st\<lparr>pending_args := pending_args st @ [a]\<rparr>)"
  using assms by (simp add: loop_body_def is_option_def is_remove_def)

lemma for_args_options_before:
  assumes "\<not> truthy (category_name st)" "list_all is_option pre"
  shows "for_args reg st (pre @ rest) =
           for_args reg
             (st\<lparr>pending_args := pending_args st @ filter (\<lambda>a. \<not> is_remove a) pre,
                 args_to_append := args_to_append st @ filter is_remove pre\<rparr>) rest"
  using assms
proof (induction pre arbitrary: st)
  case Nil
  then show ?case by simp
next
  case (Cons a pre)
  then have a: "is_option a" and pre: "list_all is_option pre" by simp_all
  show ?case
  proof (cases "is_remove a")
    case True
    let ?st = "st\<lparr>args_to_append := args_to_append st @ [a]\<rparr>"
    have "\<not> truthy (category_name ?st)" using Cons.prems(1) by simp
    from Cons.IH [OF this pre] True show ?thesis
      by (simp add: loop_body_option_before [OF Cons.prems(1) a])
  next
    case False
    let ?st = "st\<lparr>pending_args := pending_args st @ [a]\<rparr>"
    have "\<not> truthy (category_name ?st)" using Cons.prems(1) by simp
    from Cons.IH [OF this pre] False show ?thesis
      by (simp add: loop_body_option_before [OF Cons.prems(1) a])
  qed
qed

lemma loop_body_category:
  assumes "\<not> truthy (category_name st)" "\<not> skip_all st" "category_token reg c"
  shows "loop_body reg st c =
           Inr (st\<lparr>category_name := Some c,
                   result_args := result_args st @ pending_args st @ [c],
                   pending_args := []\<rparr>)"
proof -
  from assms(3) have "\<not> startswith c ''-''" "has_key reg c"
    by (simp_all add: category_token_def is_option_def)
  moreover from this(1) have "c \<noteq> ''--remove''" "c \<noteq> ''-r''"
    by (auto simp: startswith_def)
  ultimately show ?thesis using assms(1,2) by (simp add: loop_body_def)
qed

lemma loop_body_unknown_first:
  assumes "\<not> truthy (category_name st)" "\<not> skip_all st" "\<not> is_option t" "\<not> has_key reg t"
  shows "loop_body reg st t = Inr (st\<lparr>skip_all := True, pending_args := pending_args st @ [t]\<rparr>)"
proof -
  from assms(3) have "t \<noteq> ''--remove''" "t \<noteq> ''-r''"
    by (auto simp: startswith_def is_option_def)
  then show ?thesis using assms by (simp add: loop_body_def is_option_def)
qed

text \<open>Once \<open>skip_all\<close> is set with no category, only the remove flags are treated specially.\<close>

lemma for_args_skipping:
  assumes "\<not> truthy (category_name st)" "skip_all st"
  shows "for_args reg st rest =
           Inr (st\<lparr>pending_args := pending_args st @ filter (\<lambda>a. \<not> is_remove a) rest,
                   args_to_append := args_to_append st @ filter is_remove rest\<rparr>)"
  using assms
proof (induction rest arbitrary: st)
  case Nil
  then show ?case by simp
next
  case (Cons a rest)
  show ?case
  proof (cases "is_remove a")
    case True
    let ?st = "st\<lparr>args_to_append := args_to_append st @ [a]\<rparr>"
    have b: "loop_body reg st a = Inr ?st"
      using True Cons.prems by (simp add: loop_body_def is_remove_def)
    have "\<not> truthy (category_name ?st)" "skip_all ?st" using Cons.prems by simp_all
    from Cons.IH [OF this] True b show ?thesis by simp
  next
    case False
    let ?st = "st\<lparr>pending_args := pending_args st @ [a]\<rparr>"
    have b: "loop_body reg st a = Inr ?st"
      using False Cons.prems by (simp add: loop_body_def is_remove_def)
    have "\<not> truthy (category_name ?st)" "skip_all ?st" using Cons.prems by simp_all
    from Cons.IH [OF this] False b show ?thesis by simp
  qed
qed

text \<open>After the category, once the first positional token has been seen, all is pending.\<close>

lemma for_args_completed:
  assumes "truthy (category_name st)" "framework_completed st"
  shows "for_args reg st rest = Inr (st\<lparr>pending_args := pending_args st @ rest\<rparr>)"
  using assms
proof (induction rest arbitrary: st)
  case Nil
  then show ?case by simp
next
  case (Cons a rest)
  let ?st = "st\<lparr>pending_args := pending_args st @ [a]\<rparr>"
  have b: "loop_body reg st a = Inr ?st"
    using Cons.prems by (simp add: loop_body_def)
  have "truthy (category_name ?st)" "framework_completed ?st" using Cons.prems by simp_all
  from Cons.IH [OF this] b show ?case by simp
qed

lemma for_args_options_after:
  assumes "truthy (category_name st)" "list_all is_option opts"
  shows "for_args reg st (opts @ rest) =
           for_args reg (st\<lparr>pending_args := pending_args st @ opts\<rparr>) rest"
  using assms
proof (induction opts arbitrary: st)
  case Nil
  then show ?case by simp
next
  case (Cons a opts)
  let ?st = "st\<lparr>pending_args := pending_args st @ [a]\<rparr>"
  have b: "loop_body reg st a = Inr ?st"
    using Cons.prems by (simp add: loop_body_def is_option_def)
  have "truthy (category_name ?st)" "list_all is_option opts" using Cons.prems by simp_all
  from Cons.IH [OF this] b show ?case by simp
qed

lemma takeWhile_all: "list_all P (takeWhile P xs)"
  by (induction xs) simp_all

lemma options_then_positional:
  assumes h: "dropWhile is_option post = t # rest"
  shows "post = takeWhile is_option post @ t # rest \<and> \<not> is_option t \<and>
         list_all is_option (takeWhile is_option post)"
proof -
  have "takeWhile is_option post @ dropWhile is_option post = post"
    by (rule takeWhile_dropWhile_id)
  then have 1: "post = takeWhile is_option post @ t # rest"
    unfolding h by (rule sym)
  have "dropWhile is_option post \<noteq> []" unfolding h by simp
  then have "\<not> is_option (hd (dropWhile is_option post))" by (rule hd_dropWhile)
  then have 2: "\<not> is_option t" unfolding h by simp
  from 1 2 takeWhile_all [of is_option post] show ?thesis by blast
qed

lemma all_options: "dropWhile is_option post = [] \<Longrightarrow> list_all is_option post"
  by (simp add: list_all_iff)

lemma loop_body_first_positional:
  assumes "category_name st = Some c" "c \<noteq> []" "reg c = Some cat"
    "\<not> framework_completed st" "\<not> skip_all st" "\<not> is_option t"
  shows "loop_body reg st t =
     (if has_key (frameworks cat) t then
        Inr (st\<lparr>framework_completed := True, result_args := result_args st @ [t]\<rparr>)
      else (case default_framework cat of
              Some dflt \<Rightarrow>
                if os_path_sep \<in> set t then
                  Inr (st\<lparr>framework_completed := True,
                          result_args := result_args st @ [prog_name dflt],
                          pending_args := pending_args st @ [t]\<rparr>)
                else Inr (st\<lparr>framework_completed := True,
                             pending_args := pending_args st @ [t]\<rparr>)
            | None \<Rightarrow>
                Inr (st\<lparr>framework_completed := True, skip_all := True,
                        pending_args := pending_args st @ [t]\<rparr>)))"
  using assms by (simp add: loop_body_def truthy_def is_option_def)

lemma after_loop_completed:
  "framework_completed st \<Longrightarrow>
   after_loop reg st = Inr (result_args st @ pending_args st @ args_to_append st)"
  by (simp add: after_loop_def)

lemma resolver_after_category:
  assumes c: "category_name st = Some c" "c \<noteq> []" "reg c = Some cat"
    and st: "\<not> framework_completed st" "\<not> skip_all st" "pending_args st = []"
  shows "\<exists>st'. for_args reg st post = Inr st' \<and>
           after_loop reg st' =
             Inr (result_args st @ after_category cat post @ args_to_append st)"
proof (cases "dropWhile is_option post")
  case Nil
  from c have tr: "truthy (category_name st)" by (simp add: truthy_def)
  from for_args_options_after [OF tr all_options [OF Nil], of reg "[]"]
  have "for_args reg st post = Inr (st\<lparr>pending_args := post\<rparr>)"
    using st by simp
  moreover have ac: "after_category cat post = default_list cat @ post"
    unfolding after_category_def Nil by simp
  have "after_loop reg (st\<lparr>pending_args := post\<rparr>) =
      Inr (result_args st @ after_category cat post @ args_to_append st)"
    unfolding ac using c st
    by (simp add: after_loop_def truthy_def default_list_def split: option.split)
  ultimately show ?thesis by simp
next
  case (Cons t rest)
  define opts where "opts = takeWhile is_option post"
  from options_then_positional [OF Cons]
  have post: "post = opts @ t # rest" and t: "\<not> is_option t"
    and opts: "list_all is_option opts" by (simp_all add: opts_def)
  from c have tr: "truthy (category_name st)" by (simp add: truthy_def)
  define st1 where "st1 = st\<lparr>pending_args := opts\<rparr>"
  have st1: "category_name st1 = Some c" "\<not> framework_completed st1" "\<not> skip_all st1"
    "result_args st1 = result_args st" "pending_args st1 = opts"
    "args_to_append st1 = args_to_append st"
    using c st by (simp_all add: st1_def)
  have "for_args reg st (opts @ t # rest) = for_args reg st1 (t # rest)"
    using for_args_options_after [OF tr opts, of reg "t # rest"] st by (simp add: st1_def)
  then have run1: "for_args reg st post = for_args reg st1 (t # rest)"
    by (simp only: post)
  have body: "loop_body reg st1 t =
     (if has_key (frameworks cat) t then
        Inr (st1\<lparr>framework_completed := True, result_args := result_args st1 @ [t]\<rparr>)
      else (case default_framework cat of
              Some dflt \<Rightarrow>
                if os_path_sep \<in> set t then
                  Inr (st1\<lparr>framework_completed := True,
                          result_args := result_args st1 @ [prog_name dflt],
                          pending_args := pending_args st1 @ [t]\<rparr>)
                else Inr (st1\<lparr>framework_completed := True,
                             pending_args := pending_args st1 @ [t]\<rparr>)
            | None \<Rightarrow>
                Inr (st1\<lparr>framework_completed := True, skip_all := True,
                        pending_args := pending_args st1 @ [t]\<rparr>)))"
    by (rule loop_body_first_positional [where reg = reg, OF st1(1) c(2) c(3) st1(2) st1(3) t])
  have "\<exists>st2. loop_body reg st1 t = Inr st2 \<and> framework_completed st2 \<and>
      category_name st2 = Some c \<and> args_to_append st2 = args_to_append st \<and>
      result_args st2 @ pending_args st2 =
        result_args st @
          (if has_key (frameworks cat) t then t # opts
           else if os_path_sep \<in> set t then default_list cat @ opts @ [t]
           else opts @ [t])"
    unfolding body by (simp add: st1 default_list_def split: option.split)
  then obtain st2 where st2: "loop_body reg st1 t = Inr st2" and fc: "framework_completed st2"
    and cn: "category_name st2 = Some c" and ap: "args_to_append st2 = args_to_append st"
    and out: "result_args st2 @ pending_args st2 =
        result_args st @
          (if has_key (frameworks cat) t then t # opts
           else if os_path_sep \<in> set t then default_list cat @ opts @ [t]
           else opts @ [t])"
    by blast
  from cn c have tr2: "truthy (category_name st2)" by (simp add: truthy_def)
  have run2: "for_args reg st post = Inr (st2\<lparr>pending_args := pending_args st2 @ rest\<rparr>)"
    unfolding run1 using st2 for_args_completed [OF tr2 fc, of reg rest] by simp
  have fin: "after_loop reg (st2\<lparr>pending_args := pending_args st2 @ rest\<rparr>) =
      Inr ((result_args st2 @ pending_args st2) @ rest @ args_to_append st)"
    using fc ap by (simp add: after_loop_completed)
  have "after_category cat post =
      (if has_key (frameworks cat) t then t # opts @ rest
       else if os_path_sep \<in> set t then default_list cat @ post
       else post)"
    unfolding after_category_def Cons opts_def by simp
  also have "\<dots> = (if has_key (frameworks cat) t then t # opts @ rest
       else if os_path_sep \<in> set t then default_list cat @ opts @ t # rest
       else opts @ t # rest)"
    by (simp only: post [symmetric])
  finally have ac: "after_category cat post =
      (if has_key (frameworks cat) t then t # opts @ rest
       else if os_path_sep \<in> set t then default_list cat @ opts @ t # rest
       else opts @ t # rest)" .
  have "(result_args st2 @ pending_args st2) @ rest = result_args st @ after_category cat post"
    unfolding out ac by simp
  with fin have "after_loop reg (st2\<lparr>pending_args := pending_args st2 @ rest\<rparr>) =
      Inr (result_args st @ after_category cat post @ args_to_append st)"
    by simp
  with run2 show ?thesis by simp
qed

lemma mangle_with_category:
  assumes "list_all is_option pre" "category_token reg c" "reg c = Some cat"
  shows "mangle_args_for_default_framework reg (pre @ c # post) =
           Inr (filter (\<lambda>a. \<not> is_remove a) pre @ c # after_category cat post @
                filter is_remove pre)"
proof -
  have n: "\<not> truthy (category_name initial_state)" "\<not> skip_all initial_state"
    by (simp_all add: initial_state_def truthy_def)
  let ?st0 = "initial_state\<lparr>pending_args := pending_args initial_state @ filter (\<lambda>a. \<not> is_remove a) pre,
                 args_to_append := args_to_append initial_state @ filter is_remove pre\<rparr>"
  have 1: "for_args reg initial_state (pre @ c # post) = for_args reg ?st0 (c # post)"
    by (rule for_args_options_before [OF n(1) assms(1)])
  have "\<not> truthy (category_name ?st0)" "\<not> skip_all ?st0"
    by (simp_all add: initial_state_def truthy_def)
  from loop_body_category [OF this assms(2)]
  have 2: "loop_body reg ?st0 c =
      Inr (?st0\<lparr>category_name := Some c,
                result_args := result_args ?st0 @ pending_args ?st0 @ [c],
                pending_args := []\<rparr>)" .
  let ?st1 = "?st0\<lparr>category_name := Some c,
                result_args := result_args ?st0 @ pending_args ?st0 @ [c],
                pending_args := []\<rparr>"
  from assms(2) have cne: "c \<noteq> []" by (simp add: category_token_def)
  have "\<exists>st'. for_args reg ?st1 post = Inr st' \<and>
           after_loop reg st' =
             Inr (result_args ?st1 @ after_category cat post @ args_to_append ?st1)"
    by (rule resolver_after_category [where c = c])
       (use cne assms(3) in \<open>simp_all add: initial_state_def\<close>)
  then obtain st' where 3: "for_args reg ?st1 post = Inr st'"
    and 4: "after_loop reg st' =
             Inr (result_args ?st1 @ after_category cat post @ args_to_append ?st1)"
    by blast
  have "for_args reg initial_state (pre @ c # post) = Inr st'"
    using 1 2 3 by simp
  then show ?thesis using 4
    by (simp add: mangle_args_for_default_framework_def initial_state_def)
qed

lemma mangle_without_category:
  assumes "list_all is_option pre" "rest = [] \<or> (\<not> is_option (hd rest) \<and> \<not> has_key reg (hd rest))"
  shows "mangle_args_for_default_framework reg (pre @ rest) =
           Inr (filter (\<lambda>a. \<not> is_remove a) (pre @ rest) @ filter is_remove (pre @ rest))"
proof -
  have n: "\<not> truthy (category_name initial_state)"
    by (simp_all add: initial_state_def truthy_def)
  let ?st0 = "initial_state\<lparr>pending_args := pending_args initial_state @ filter (\<lambda>a. \<not> is_remove a) pre,
                 args_to_append := args_to_append initial_state @ filter is_remove pre\<rparr>"
  have 1: "for_args reg initial_state (pre @ rest) = for_args reg ?st0 rest"
    by (rule for_args_options_before [OF n assms(1)])
  have n0: "\<not> truthy (category_name ?st0)" "\<not> skip_all ?st0"
    by (simp_all add: initial_state_def truthy_def)
  show ?thesis
  proof (cases rest)
    case Nil
    with 1 show ?thesis
      by (simp add: mangle_args_for_default_framework_def after_loop_def initial_state_def truthy_def)
  next
    case (Cons t ts)
    with assms(2) have t: "\<not> is_option t" "\<not> has_key reg t" by simp_all
    then have nr: "\<not> is_remove t" by (auto simp: is_remove_def is_option_def startswith_def)
    let ?st1 = "?st0\<lparr>skip_all := True, pending_args := pending_args ?st0 @ [t]\<rparr>"
    have 2: "loop_body reg ?st0 t = Inr ?st1"
      by (rule loop_body_unknown_first [OF n0 t])
    have "\<not> truthy (category_name ?st1)" "skip_all ?st1"
      by (simp_all add: initial_state_def truthy_def)
    from for_args_skipping [OF this, of reg ts] 1 2 Cons nr
    show ?thesis
      by (simp add: mangle_args_for_default_framework_def after_loop_def initial_state_def truthy_def)
  qed
qed

lemmas example_defs = example_registry_def example_category_def example_framework_def has_key_def is_option_def
  startswith_def category_token_def is_remove_def os_path_sep_def

text \<open>
  C8. When the argument vector ends right after the category token (only option tokens
  follow it, if anything) and the category has a default framework, the name of the
  default is put directly after the category. Options before the category keep their
  place, but for the remove flags among them, which go to the end.
\<close>

theorem default_appended_after_category:
  assumes "list_all is_option pre" and "category_token reg c" and "reg c = Some cat"
    and "default_framework cat = Some dflt" and "list_all is_option opts"
  shows "mangle_args_for_default_framework reg (pre @ c # opts) =
           Inr (filter (\<lambda>a. \<not> is_remove a) pre @ [c, prog_name dflt] @ opts @
                filter is_remove pre)"
proof -
  from assms(5) have d: "dropWhile is_option opts = []" by (simp add: list_all_iff)
  have "after_category cat opts = prog_name dflt # opts"
    unfolding after_category_def d using assms(4) by (simp add: default_list_def)
  with mangle_with_category [OF assms(1-3), of opts] show ?thesis by simp
qed

theorem default_appended_after_category_witness:
  "list_all is_option [''-v''] \<and> category_token example_registry ''cat'' \<and>
   list_all is_option [] \<and>
   mangle_args_for_default_framework example_registry [''cat''] = Inr [''cat'', ''dflt''] \<and>
   mangle_args_for_default_framework example_registry [''-v'', ''cat'', ''--verbose''] =
     Inr [''-v'', ''cat'', ''dflt'', ''--verbose'']"
proof -
  have c: "category_token example_registry ''cat''"
    and r: "example_registry ''cat'' = Some example_category"
    and d: "default_framework example_category = Some (example_framework ''dflt'')"
    and p: "prog_name (example_framework ''dflt'') = ''dflt''"
    by (simp_all add: example_defs)
  have o: "list_all is_option [''-v'']" "list_all is_option [''--verbose'']" "list_all is_option []"
    by (simp_all add: example_defs)
  from default_appended_after_category [OF o(3) c r d o(3)]
  have 1: "mangle_args_for_default_framework example_registry [''cat''] = Inr [''cat'', ''dflt'']"
    by (simp add: p)
  from default_appended_after_category [OF o(1) c r d o(2)]
  have 2: "mangle_args_for_default_framework example_registry [''-v'', ''cat'', ''--verbose''] =
     Inr [''-v'', ''cat'', ''dflt'', ''--verbose'']"
    by (simp add: p is_remove_def)
  from c o 1 2 show ?thesis by simp
qed

text \<open>
  C6 (as the code has it). For the vector \<open>[category, token]\<close>, the category having a
  default framework and the token not being one of its frameworks: the default is put
  between the two when the token holds a path separator, and also when the token is an
  option token (it is then not looked at as a framework name, and the vector counts as
  ending after the category); otherwise the vector is unchanged.
\<close>

theorem default_before_token:
  assumes "category_token reg c" and "reg c = Some cat"
    and "default_framework cat = Some dflt" and "\<not> has_key (frameworks cat) t"
  shows "mangle_args_for_default_framework reg [c, t] =
           Inr (if is_option t \<or> os_path_sep \<in> set t then [c, prog_name dflt, t] else [c, t])"
proof -
  have "after_category cat [t] =
      (if is_option t \<or> os_path_sep \<in> set t then [prog_name dflt, t] else [t])"
    using assms(3,4) by (simp add: after_category_def default_list_def)
  with mangle_with_category [OF _ assms(1,2), of "[]" "[t]"] show ?thesis by simp
qed

text \<open>
  C6 as stated fails for an option token: \<open>-x\<close> holds no path separator and is no
  framework of the category, yet the default is inserted.
\<close>

theorem default_before_option_token:
  "mangle_args_for_default_framework example_registry [''cat'', ''-x''] =
     Inr [''cat'', ''dflt'', ''-x''] \<and>
   os_path_sep \<notin> set ''-x'' \<and>
   category_token example_registry ''cat'' \<and>
   example_registry ''cat'' = Some example_category \<and>
   default_framework example_category = Some (example_framework ''dflt'') \<and>
   \<not> has_key (frameworks example_category) ''-x''"
  by (simp add: mangle_args_for_default_framework_def initial_state_def loop_body_def
        after_loop_def truthy_def example_defs)

theorem default_before_token_witness:
  "category_token example_registry ''cat'' \<and>
   mangle_args_for_default_framework example_registry [''cat'', ''/some/path''] =
     Inr [''cat'', ''dflt'', ''/some/path''] \<and>
   mangle_args_for_default_framework example_registry [''cat'', ''typo''] =
     Inr [''cat'', ''typo''] \<and>
   \<not> has_key (frameworks example_category) ''/some/path'' \<and>
   \<not> has_key (frameworks example_category) ''typo''"
proof -
  have c: "category_token example_registry ''cat''"
    and r: "example_registry ''cat'' = Some example_category"
    and d: "default_framework example_category = Some (example_framework ''dflt'')"
    and p: "prog_name (example_framework ''dflt'') = ''dflt''"
    by (simp_all add: example_defs)
  have k: "\<not> has_key (frameworks example_category) ''/some/path''"
    "\<not> has_key (frameworks example_category) ''typo''"
    by (simp_all add: example_defs)
  from default_before_token [OF c r d k(1)]
  have 1: "mangle_args_for_default_framework example_registry [''cat'', ''/some/path''] =
     Inr [''cat'', ''dflt'', ''/some/path'']"
    by (simp add: p os_path_sep_def)
  from default_before_token [OF c r d k(2)]
  have 2: "mangle_args_for_default_framework example_registry [''cat'', ''typo''] =
     Inr [''cat'', ''typo'']"
    by (simp add: p os_path_sep_def is_option_def startswith_def)
  from c k 1 2 show ?thesis by simp
qed

text \<open>
  C2 (as the code has it). \<open>main\<close> hands the raw vector to the parser when the token
  \<open>--help\<close> is in it, and the rewritten vector otherwise.
\<close>

theorem help_bypasses_rewriting:
  "(''--help'' \<in> set argv \<longrightarrow> arg_to_parse reg argv = Inr argv) \<and>
   (''--help'' \<notin> set argv \<longrightarrow>
      arg_to_parse reg argv = mangle_args_for_default_framework reg argv)"
  by (simp add: arg_to_parse_def)

theorem help_bypasses_rewriting_witness:
  "''--help'' \<in> set [''--help'', ''cat''] \<and>
   arg_to_parse example_registry [''--help'', ''cat''] = Inr [''--help'', ''cat''] \<and>
   ''--help'' \<notin> set [''cat''] \<and>
   arg_to_parse example_registry [''cat''] =
     mangle_args_for_default_framework example_registry [''cat'']"
  using help_bypasses_rewriting [of "[''--help'', ''cat'']" example_registry]
    help_bypasses_rewriting [of "[''cat'']" example_registry]
  by simp

text \<open>C2 as stated fails for \<open>-h\<close>: the vector is rewritten like any other.\<close>

theorem short_help_is_rewritten:
  "arg_to_parse example_registry [''-h'', ''cat''] = Inr [''-h'', ''cat'', ''dflt'']"
  by (simp add: arg_to_parse_def mangle_args_for_default_framework_def initial_state_def
        loop_body_def after_loop_def truthy_def example_defs)

lemma resolver_inv_initial: "resolver_inv reg [] initial_state"
  by (simp add: resolver_inv_def initial_state_def emitted_def)

lemma loop_body_inv:
  assumes "resolver_inv reg seen st"
  shows "\<exists>st'. loop_body reg st arg = Inr st' \<and> resolver_inv reg (seen @ [arg]) st'"
proof (cases "\<not> truthy (category_name st) \<and> (arg = ''--remove'' \<or> arg = ''-r'')")
  case True
  then have "loop_body reg st arg = Inr (st\<lparr>args_to_append := args_to_append st @ [arg]\<rparr>)"
    by (simp add: loop_body_def)
  moreover have "resolver_inv reg (seen @ [arg]) (st\<lparr>args_to_append := args_to_append st @ [arg]\<rparr>)"
    using assms by (auto simp: resolver_inv_def emitted_def split: option.splits)
  ultimately show ?thesis by simp
next
  case nr: False
  have pend: "resolver_inv reg (seen @ [arg]) (st\<lparr>pending_args := pending_args st @ [arg]\<rparr>)"
    using assms by (auto simp: resolver_inv_def emitted_def split: option.splits)
  show ?thesis
  proof (cases "\<not> startswith arg ''-'' \<and> \<not> skip_all st")
    case np: False
    have "loop_body reg st arg = Inr (st\<lparr>pending_args := pending_args st @ [arg]\<rparr>)"
      by (simp add: loop_body_def nr np)
    with pend show ?thesis by simp
  next
    case pos: True
    show ?thesis
    proof (cases "truthy (category_name st)")
      case False
      with nr have ne: "arg \<noteq> ''--remove''" "arg \<noteq> ''-r''" by auto
      show ?thesis
      proof (cases "has_key reg arg")
        case True
        have "loop_body reg st arg =
            Inr (st\<lparr>category_name := Some arg,
                    result_args := result_args st @ pending_args st @ [arg],
                    pending_args := []\<rparr>)"
          by (simp add: loop_body_def ne pos False True)
        moreover have "resolver_inv reg (seen @ [arg])
            (st\<lparr>category_name := Some arg,
                    result_args := result_args st @ pending_args st @ [arg],
                    pending_args := []\<rparr>)"
          using assms True False
          by (auto simp: resolver_inv_def emitted_def truthy_def split: option.splits)
        ultimately show ?thesis by simp
      next
        case nk: False
        have "loop_body reg st arg =
            Inr (st\<lparr>skip_all := True, pending_args := pending_args st @ [arg]\<rparr>)"
          by (simp add: loop_body_def ne pos False nk)
        moreover have "resolver_inv reg (seen @ [arg])
            (st\<lparr>skip_all := True, pending_args := pending_args st @ [arg]\<rparr>)"
          using assms by (auto simp: resolver_inv_def emitted_def split: option.splits)
        ultimately show ?thesis by simp
      qed
    next
      case tr: True
      then obtain c where c: "category_name st = Some c" "c \<noteq> []"
        by (auto simp: truthy_def split: option.splits)
      with assms obtain cat where cat: "reg c = Some cat"
        by (auto simp: resolver_inv_def has_key_def)
      show ?thesis
      proof (cases "framework_completed st")
        case True
        have "loop_body reg st arg =
            Inr (st\<lparr>pending_args := pending_args st @ [arg]\<rparr>)"
          by (simp add: loop_body_def pos tr True)
        with pend show ?thesis by simp
      next
        case nfc: False
        with assms have ms: "mset (emitted st) = mset seen"
          by (auto simp: resolver_inv_def)
        from assms c have cin: "c \<in> set seen" by (simp add: resolver_inv_def)
        from pos have no: "\<not> is_option arg" and ns: "\<not> skip_all st"
          by (simp_all add: is_option_def)
        from loop_body_first_positional [where reg = reg, OF c(1) c(2) cat nfc ns no]
        have body: "loop_body reg st arg =
          (if has_key (frameworks cat) arg then
             Inr (st\<lparr>framework_completed := True, result_args := result_args st @ [arg]\<rparr>)
           else (case default_framework cat of
              Some dflt \<Rightarrow>
                if os_path_sep \<in> set arg then
                  Inr (st\<lparr>framework_completed := True,
                          result_args := result_args st @ [prog_name dflt],
                          pending_args := pending_args st @ [arg]\<rparr>)
                else Inr (st\<lparr>framework_completed := True,
                             pending_args := pending_args st @ [arg]\<rparr>)
            | None \<Rightarrow>
                Inr (st\<lparr>framework_completed := True, skip_all := True,
                        pending_args := pending_args st @ [arg]\<rparr>)))"
          by simp
        show ?thesis
          unfolding body using ms c cat cin
          by (auto simp: resolver_inv_def emitted_def has_key_def split: option.splits)
      qed
    qed
  qed
qed

lemma for_args_inv:
  "resolver_inv reg seen st \<Longrightarrow>
   \<exists>st'. for_args reg st args = Inr st' \<and> resolver_inv reg (seen @ args) st'"
proof (induction args arbitrary: seen st)
  case Nil
  then show ?case by simp
next
  case (Cons a args)
  from loop_body_inv [OF Cons.prems, of a]
  obtain st1 where 1: "loop_body reg st a = Inr st1" and 2: "resolver_inv reg (seen @ [a]) st1"
    by blast
  from Cons.IH [OF 2] 1 show ?case by simp
qed

lemma first_positional_append:
  "first_positional seen = Some c \<Longrightarrow> first_positional (seen @ later) = Some c"
  by (induction seen) (auto simp: first_positional_def split: if_splits)

lemma first_positional_new:
  "list_all skippable seen \<Longrightarrow> \<not> skippable arg \<Longrightarrow> first_positional (seen @ [arg]) = Some arg"
  by (induction seen) (auto simp: first_positional_def)

lemma loop_body_category_step:
  assumes "loop_body reg st arg = Inr st'"
  shows "category_name st' = category_name st \<and> (skip_all st \<longrightarrow> skip_all st') \<and>
           (\<not> truthy (category_name st) \<and> \<not> skip_all st' \<longrightarrow> is_option arg) \<or>
         \<not> truthy (category_name st) \<and> \<not> skip_all st \<and> \<not> is_option arg \<and>
           category_name st' = Some arg \<and> \<not> skip_all st'"
proof (cases "\<not> truthy (category_name st) \<and> (arg = ''--remove'' \<or> arg = ''-r'')")
  case True
  then have "loop_body reg st arg = Inr (st\<lparr>args_to_append := args_to_append st @ [arg]\<rparr>)"
    by (simp add: loop_body_def)
  with assms have "st' = st\<lparr>args_to_append := args_to_append st @ [arg]\<rparr>" by simp
  moreover from True have "is_option arg" by (auto simp: is_option_def startswith_def)
  ultimately show ?thesis by simp
next
  case nr: False
  show ?thesis
  proof (cases "\<not> startswith arg ''-'' \<and> \<not> skip_all st")
    case np: False
    have "loop_body reg st arg = Inr (st\<lparr>pending_args := pending_args st @ [arg]\<rparr>)"
      by (simp add: loop_body_def nr np)
    with assms have "st' = st\<lparr>pending_args := pending_args st @ [arg]\<rparr>" by simp
    with np show ?thesis by (auto simp: is_option_def)
  next
    case pos: True
    show ?thesis
    proof (cases "truthy (category_name st)")
      case False
      with nr have ne: "arg \<noteq> ''--remove''" "arg \<noteq> ''-r''" by auto
      show ?thesis
      proof (cases "has_key reg arg")
        case True
        have "loop_body reg st arg =
            Inr (st\<lparr>category_name := Some arg,
                    result_args := result_args st @ pending_args st @ [arg],
                    pending_args := []\<rparr>)"
          by (simp add: loop_body_def ne pos False True)
        with assms have "st' = st\<lparr>category_name := Some arg,
                    result_args := result_args st @ pending_args st @ [arg],
                    pending_args := []\<rparr>" by simp
        with pos False show ?thesis by (simp add: is_option_def)
      next
        case nk: False
        have "loop_body reg st arg =
            Inr (st\<lparr>skip_all := True, pending_args := pending_args st @ [arg]\<rparr>)"
          by (simp add: loop_body_def ne pos False nk)
        with assms have "st' = st\<lparr>skip_all := True, pending_args := pending_args st @ [arg]\<rparr>"
          by simp
        then show ?thesis by simp
      qed
    next
      case tr: True
      then obtain c where c: "category_name st = Some c" "c \<noteq> []"
        by (auto simp: truthy_def split: option.splits)
      show ?thesis
      proof (cases "framework_completed st")
        case True
        have "loop_body reg st arg = Inr (st\<lparr>pending_args := pending_args st @ [arg]\<rparr>)"
          by (simp add: loop_body_def pos tr True)
        with assms have "st' = st\<lparr>pending_args := pending_args st @ [arg]\<rparr>" by simp
        with tr show ?thesis by simp
      next
        case nfc: False
        have "loop_body reg st arg =
            (case reg c of
               None \<Rightarrow> Inl KeyError
             | Some cat \<Rightarrow>
                if has_key (frameworks cat) arg then
                  Inr (st\<lparr>framework_completed := True,
                          result_args := result_args st @ [arg]\<rparr>)
                else
                  (case default_framework cat of
                     Some dflt \<Rightarrow>
                       if os_path_sep \<in> set arg then
                         Inr (st\<lparr>framework_completed := True,
                                 result_args := result_args st @ [prog_name dflt],
                                 pending_args := pending_args st @ [arg]\<rparr>)
                       else
                         Inr (st\<lparr>framework_completed := True,
                                 pending_args := pending_args st @ [arg]\<rparr>)
                   | None \<Rightarrow>
                       Inr (st\<lparr>framework_completed := True, skip_all := True,
                               pending_args := pending_args st @ [arg]\<rparr>)))"
          by (simp add: loop_body_def pos truthy_def nfc c)
        with assms have "category_name st' = category_name st \<and> (skip_all st \<longrightarrow> skip_all st')"
          by (auto split: option.splits if_splits)
        with tr show ?thesis by simp
      qed
    qed
  qed
qed

lemma category_inv_initial: "category_inv [] initial_state"
  by (simp add: category_inv_def initial_state_def)

lemma loop_body_category_inv:
  assumes "category_inv seen st" and "loop_body reg st arg = Inr st'"
  shows "category_inv (seen @ [arg]) st'"
proof -
  from loop_body_category_step [OF assms(2)]
  consider
    (same) "category_name st' = category_name st" "skip_all st \<longrightarrow> skip_all st'"
      "\<not> truthy (category_name st) \<and> \<not> skip_all st' \<longrightarrow> is_option arg"
  | (new) "\<not> truthy (category_name st)" "\<not> skip_all st" "\<not> is_option arg"
      "category_name st' = Some arg" "\<not> skip_all st'"
    by blast
  then show ?thesis
  proof cases
    case same
    have "list_all skippable (seen @ [arg])"
      if "\<not> truthy (category_name st')" "\<not> skip_all st'"
    proof -
      from that same have "\<not> truthy (category_name st)" "\<not> skip_all st" "is_option arg"
        by auto
      with assms(1) show ?thesis by (simp add: category_inv_def skippable_def)
    qed
    moreover have "first_positional (seen @ [arg]) = Some c"
      if "category_name st' = Some c" "c \<noteq> []" for c
    proof -
      from that same assms(1) have "first_positional seen = Some c"
        by (simp add: category_inv_def)
      then show ?thesis by (rule first_positional_append)
    qed
    ultimately show ?thesis by (simp add: category_inv_def)
  next
    case new
    from new(1,2) assms(1) have all: "list_all skippable seen"
      by (simp add: category_inv_def)
    have "list_all skippable (seen @ [arg])" if "\<not> truthy (category_name st')"
    proof -
      from that new(4) have "arg = []" by (simp add: truthy_def)
      with all show ?thesis by (simp add: skippable_def)
    qed
    moreover have "first_positional (seen @ [arg]) = Some c"
      if "category_name st' = Some c" "c \<noteq> []" for c
    proof -
      from that new(4) have "c = arg" "arg \<noteq> []" by simp_all
      with new(3) have "\<not> skippable arg" by (simp add: skippable_def)
      from first_positional_new [OF all this] \<open>c = arg\<close> show ?thesis by simp
    qed
    ultimately show ?thesis by (simp add: category_inv_def)
  qed
qed

lemma for_args_category_inv:
  "category_inv seen st \<Longrightarrow> for_args reg st args = Inr st' \<Longrightarrow>
   category_inv (seen @ args) st'"
proof (induction args arbitrary: seen st)
  case Nil
  then show ?case by simp
next
  case (Cons a args)
  from Cons.prems(2) obtain st1 where 1: "loop_body reg st a = Inr st1"
    and 2: "for_args reg st1 args = Inr st'"
    by (auto split: sum.splits)
  from loop_body_category_inv [OF Cons.prems(1) 1] have "category_inv (seen @ [a]) st1" .
  from Cons.IH [OF this 2] show ?case by simp
qed

lemma after_loop_inv:
  assumes "resolver_inv reg seen st"
  shows "\<exists>out. after_loop reg st = Inr out \<and>
           (mset out = mset seen \<or>
            (\<exists>c cat dflt. category_name st = Some c \<and> c \<noteq> [] \<and> reg c = Some cat \<and>
               default_framework cat = Some dflt \<and>
               mset out = add_mset (prog_name dflt) (mset seen)))"
proof (cases "truthy (category_name st) \<and> \<not> framework_completed st")
  case True
  then obtain c where c: "category_name st = Some c" "c \<noteq> []"
    by (auto simp: truthy_def split: option.splits)
  with assms obtain cat where cat: "reg c = Some cat"
    by (auto simp: resolver_inv_def has_key_def)
  from True assms have ms: "mset (emitted st) = mset seen"
    by (auto simp: resolver_inv_def)
  show ?thesis
  proof (cases "default_framework cat")
    case None
    with True c cat have "after_loop reg st = Inr (emitted st)"
      by (simp add: after_loop_def emitted_def)
    with ms show ?thesis by simp
  next
    case (Some dflt)
    with True c cat have "after_loop reg st =
        Inr ((result_args st @ [prog_name dflt]) @ pending_args st @ args_to_append st)"
      by (simp add: after_loop_def)
    moreover have "mset ((result_args st @ [prog_name dflt]) @ pending_args st @ args_to_append st) =
        add_mset (prog_name dflt) (mset seen)"
      using ms by (simp add: emitted_def)
    ultimately show ?thesis using c cat Some by blast
  qed
next
  case False
  then have "after_loop reg st = Inr (emitted st)"
    by (auto simp: after_loop_def emitted_def)
  moreover from assms have "mset (emitted st) = mset seen \<or>
            (\<exists>c cat dflt. category_name st = Some c \<and> c \<noteq> [] \<and> reg c = Some cat \<and>
               default_framework cat = Some dflt \<and>
               mset (emitted st) = add_mset (prog_name dflt) (mset seen))"
    by (auto simp: resolver_inv_def)
  ultimately show ?thesis by simp
qed

text \<open>
  C10. The resolver returns for every argument vector and every registry; its output
  holds every input token, as often as the input does, and at most one token more: the
  name of the default framework of the matched category. The matched category is the
  value of \<open>category_name\<close> when the loop ends, and it is the first token of the vector
  that is neither an option nor empty. So the output is as long as the input, or one
  longer.
\<close>

theorem resolver_keeps_tokens:
  "\<exists>st out. for_args reg initial_state args = Inr st \<and>
     mangle_args_for_default_framework reg args = Inr out \<and>
     (mset out = mset args \<or>
      (\<exists>c cat dflt. category_name st = Some c \<and> first_positional args = Some c \<and>
         reg c = Some cat \<and> default_framework cat = Some dflt \<and>
         mset out = add_mset (prog_name dflt) (mset args))) \<and>
     (length out = length args \<or> length out = length args + 1)"
proof -
  from for_args_inv [OF resolver_inv_initial, of reg args]
  obtain st where 1: "for_args reg initial_state args = Inr st"
    and 2: "resolver_inv reg args st" by auto
  from for_args_category_inv [OF category_inv_initial 1]
  have 3: "category_inv args st" by simp
  from after_loop_inv [OF 2]
  obtain out where 4: "after_loop reg st = Inr out"
    and 5: "mset out = mset args \<or>
            (\<exists>c cat dflt. category_name st = Some c \<and> c \<noteq> [] \<and> reg c = Some cat \<and>
               default_framework cat = Some dflt \<and>
               mset out = add_mset (prog_name dflt) (mset args))" by blast
  from 5 have 6: "mset out = mset args \<or>
      (\<exists>c cat dflt. category_name st = Some c \<and> first_positional args = Some c \<and>
         reg c = Some cat \<and> default_framework cat = Some dflt \<and>
         mset out = add_mset (prog_name dflt) (mset args))"
  proof
    assume "mset out = mset args"
    then show ?thesis by simp
  next
    assume "\<exists>c cat dflt. category_name st = Some c \<and> c \<noteq> [] \<and> reg c = Some cat \<and>
               default_framework cat = Some dflt \<and>
               mset out = add_mset (prog_name dflt) (mset args)"
    then obtain c cat dflt where c: "category_name st = Some c" "c \<noteq> []"
      and r: "reg c = Some cat" "default_framework cat = Some dflt"
        "mset out = add_mset (prog_name dflt) (mset args)" by blast
    from 3 c have "first_positional args = Some c" by (simp add: category_inv_def)
    with c r show ?thesis by blast
  qed
  from 5 have 7: "length out = length args \<or> length out = length args + 1"
  proof
    assume "mset out = mset args"
    then have "length out = length args" by (rule mset_eq_length)
    then show ?thesis by simp
  next
    assume "\<exists>c cat dflt. category_name st = Some c \<and> c \<noteq> [] \<and> reg c = Some cat \<and>
               default_framework cat = Some dflt \<and>
               mset out = add_mset (prog_name dflt) (mset args)"
    then obtain d :: string where "mset out = mset (d # args)" by auto
    then have "length out = length (d # args)" by (rule mset_eq_length)
    then show ?thesis by simp
  qed
  from 1 4 have "mangle_args_for_default_framework reg args = Inr out"
    by (simp add: mangle_args_for_default_framework_def)
  with 1 6 7 show ?thesis by blast
qed

theorem resolver_keeps_tokens_witness:
  "\<exists>st out. for_args example_registry initial_state [''cat'', ''-r''] = Inr st \<and>
     mangle_args_for_default_framework example_registry [''cat'', ''-r''] = Inr out \<and>
     (mset out = mset [''cat'', ''-r''] \<or>
      (\<exists>c cat dflt. category_name st = Some c \<and>
         first_positional [''cat'', ''-r''] = Some c \<and>
         example_registry c = Some cat \<and> default_framework cat = Some dflt \<and>
         mset out = add_mset (prog_name dflt) (mset [''cat'', ''-r'']))) \<and>
     (length out = length [''cat'', ''-r''] \<or> length out = length [''cat'', ''-r''] + 1)"
  by (rule resolver_keeps_tokens)

lemma after_category_cases:
  "after_category cat post = default_list cat @ post \<or>
   after_category cat post = post \<or>
   (\<exists>opts t rest. post = opts @ t # rest \<and> list_all is_option opts \<and> \<not> is_option t \<and>
      has_key (frameworks cat) t \<and> after_category cat post = t # opts @ rest)"
proof (cases "dropWhile is_option post")
  case Nil
  have "after_category cat post = default_list cat @ post"
    unfolding after_category_def Nil by simp
  then show ?thesis by simp
next
  case (Cons t rest)
  define opts where "opts = takeWhile is_option post"
  from options_then_positional [OF Cons]
  have post: "post = opts @ t # rest" and t: "\<not> is_option t"
    and opts: "list_all is_option opts" by (simp_all add: opts_def)
  have ac: "after_category cat post =
      (if has_key (frameworks cat) t then t # opts @ rest
       else if os_path_sep \<in> set t then default_list cat @ post
       else post)"
    unfolding after_category_def Cons opts_def by simp
  show ?thesis
  proof (cases "has_key (frameworks cat) t")
    case True
    with ac have "after_category cat post = t # opts @ rest" by simp
    with post t opts True show ?thesis by blast
  next
    case False
    with ac show ?thesis by simp
  qed
qed

text \<open>
  C3 (as the code has it). Let \<open>pre\<close> be the option tokens before the first positional
  token. If that token \<open>c\<close> is the category, the remove flags of \<open>pre\<close> are moved to
  the very end of the output, behind everything else, and no token after the category is
  moved there. The tokens \<open>post\<close> after the category come out in their order, behind
  the default framework if one is inserted, with one exception: when the first positional
  token of \<open>post\<close> is a framework of the category, it is moved up to follow the
  category, ahead of the options (remove flags among them) that stood before it.
  If the first positional token is no category, or there is none, no category is ever
  recognized, and every remove flag of the vector is moved to the end.
\<close>

theorem remove_flag_placement:
  assumes "list_all is_option pre"
  shows "(category_token reg c \<and> reg c = Some cat \<longrightarrow>
            mangle_args_for_default_framework reg (pre @ c # post) =
              Inr (filter (\<lambda>a. \<not> is_remove a) pre @ c # after_category cat post @
                   filter is_remove pre) \<and>
            (after_category cat post = default_list cat @ post \<or>
             after_category cat post = post \<or>
             (\<exists>opts t rest. post = opts @ t # rest \<and> list_all is_option opts \<and>
                \<not> is_option t \<and> has_key (frameworks cat) t \<and>
                after_category cat post = t # opts @ rest))) \<and>
         (rest = [] \<or> \<not> is_option (hd rest) \<and> \<not> has_key reg (hd rest) \<longrightarrow>
            mangle_args_for_default_framework reg (pre @ rest) =
              Inr (filter (\<lambda>a. \<not> is_remove a) (pre @ rest) @ filter is_remove (pre @ rest)))"
proof (intro conjI impI)
  assume "category_token reg c \<and> reg c = Some cat"
  then show "mangle_args_for_default_framework reg (pre @ c # post) =
      Inr (filter (\<lambda>a. \<not> is_remove a) pre @ c # after_category cat post @ filter is_remove pre)"
    using mangle_with_category [OF assms, of reg c cat post] by blast
next
  show "after_category cat post = default_list cat @ post \<or>
        after_category cat post = post \<or>
        (\<exists>opts t rest. post = opts @ t # rest \<and> list_all is_option opts \<and>
           \<not> is_option t \<and> has_key (frameworks cat) t \<and>
           after_category cat post = t # opts @ rest)"
    by (rule after_category_cases)
next
  assume "rest = [] \<or> \<not> is_option (hd rest) \<and> \<not> has_key reg (hd rest)"
  then show "mangle_args_for_default_framework reg (pre @ rest) =
      Inr (filter (\<lambda>a. \<not> is_remove a) (pre @ rest) @ filter is_remove (pre @ rest))"
    by (rule mangle_without_category [OF assms])
qed

theorem remove_flag_placement_witness:
  "list_all is_option [''-r'', ''-v''] \<and> category_token example_registry ''cat'' \<and>
   example_registry ''cat'' = Some example_category \<and>
   mangle_args_for_default_framework example_registry
       [''-r'', ''-v'', ''cat'', ''--remove'', ''/p'', ''x''] =
     Inr [''-v'', ''cat'', ''dflt'', ''--remove'', ''/p'', ''x'', ''-r''] \<and>
   \<not> is_option (hd [''unknown'', ''-r'', ''cat'']) \<and>
   \<not> has_key example_registry (hd [''unknown'', ''-r'', ''cat'']) \<and>
   mangle_args_for_default_framework example_registry
       [''-r'', ''-v'', ''unknown'', ''-r'', ''cat''] =
     Inr [''-v'', ''unknown'', ''cat'', ''-r'', ''-r'']"
proof -
  have o: "list_all is_option [''-r'', ''-v'']"
    and c: "category_token example_registry ''cat''"
    and r: "example_registry ''cat'' = Some example_category"
    and u: "\<not> is_option (hd [''unknown'', ''-r'', ''cat''])"
      "\<not> has_key example_registry (hd [''unknown'', ''-r'', ''cat''])"
    by (simp_all add: example_defs)
  have ac: "after_category example_category [''--remove'', ''/p'', ''x''] =
      [''dflt'', ''--remove'', ''/p'', ''x'']"
    by (simp add: after_category_def default_list_def example_defs)
  note inst = remove_flag_placement [OF o, of example_registry "''cat''" example_category
      "[''--remove'', ''/p'', ''x'']" "[''unknown'', ''-r'', ''cat'']"]
  from inst c r ac
  have 1: "mangle_args_for_default_framework example_registry
       [''-r'', ''-v'', ''cat'', ''--remove'', ''/p'', ''x''] =
     Inr [''-v'', ''cat'', ''dflt'', ''--remove'', ''/p'', ''x'', ''-r'']"
    by (simp add: is_remove_def)
  from inst u
  have 2: "mangle_args_for_default_framework example_registry
       [''-r'', ''-v'', ''unknown'', ''-r'', ''cat''] =
     Inr [''-v'', ''unknown'', ''cat'', ''-r'', ''-r'']"
    by (simp add: is_remove_def)
  from o c r u 1 2 show ?thesis by simp
qed

text \<open>
  C3 as stated fails: a remove flag after the category does not keep its place relative
  to its neighbours when a framework name follows it. In the input \<open>-r\<close> stands before
  \<open>fw\<close>, in the output behind it.
\<close>

theorem remove_flag_after_category_moves:
  "mangle_args_for_default_framework example_registry [''cat'', ''-r'', ''fw'', ''x''] =
     Inr [''cat'', ''fw'', ''-r'', ''x'']"
  by (simp add: mangle_args_for_default_framework_def initial_state_def loop_body_def
        after_loop_def truthy_def example_defs)

section \<open>Properties of the update branch\<close>

lemma outdated_check_True:
  "outdated_check latest user = Inr True \<longleftrightarrow>
     (\<exists>l u. latest = Some l \<and> user = Some u \<and>
        is_first_version_higher (Some l) (Some u) = Inr True)"
  by (cases latest; cases user) (simp_all add: outdated_check_def)

lemma check_updates_outdated:
  "check_updates reg installed = Inr outdated \<Longrightarrow> out \<in> set outdated \<Longrightarrow>
   \<exists>inst cat fw l u. inst \<in> set installed \<and>
      o_framework_name out = i_framework_name inst \<and>
      o_category_name out = i_category_name inst \<and>
      reg (i_category_name inst) = Some cat \<and>
      frameworks cat (i_framework_name inst) = Some fw \<and> supports_update fw \<and>
      get_latest_version fw = Some l \<and> latest_version out = Some l \<and>
      get_current_user_version fw (i_install_path inst) = Some u \<and> user_version out = Some u \<and>
      is_first_version_higher (Some l) (Some u) = Inr True"
proof (induction installed arbitrary: outdated)
  case Nil
  then show ?case by simp
next
  case (Cons inst rest)
  show ?case
  proof (cases "i_category_name inst = ''java'' \<or> i_framework_name inst = ''firefox-dev''")
    case True
    with Cons.prems have "check_updates reg rest = Inr outdated" by auto
    from Cons.IH [OF this Cons.prems(2)] show ?thesis by auto
  next
    case nx: False
    with Cons.prems(1) obtain cat fw where cat: "reg (i_category_name inst) = Some cat"
      and fw: "frameworks cat (i_framework_name inst) = Some fw"
      by (auto split: option.splits Option.bind_splits)
    show ?thesis
    proof (cases "supports_update fw")
      case False
      with Cons.prems nx cat fw have "check_updates reg rest = Inr outdated" by simp
      from Cons.IH [OF this Cons.prems(2)] show ?thesis by auto
    next
      case su: True
      with Cons.prems(1) nx cat fw obtain b outs where
        b: "outdated_check (get_latest_version fw)
              (get_current_user_version fw (i_install_path inst)) = Inr b"
        and outs: "check_updates reg rest = Inr outs"
        and od: "outdated = (if b then
              \<lparr>o_framework_name = i_framework_name inst,
               o_category_name = i_category_name inst,
               user_version = get_current_user_version fw (i_install_path inst),
               latest_version = get_latest_version fw,
               is_outdated = b\<rparr> # outs else outs)"
        by (auto split: sum.splits)
      show ?thesis
      proof (cases "out \<in> set outs")
        case True
        from Cons.IH [OF outs True] show ?thesis by auto
      next
        case False
        with Cons.prems(2) od have b': "b" and out: "out =
              \<lparr>o_framework_name = i_framework_name inst,
               o_category_name = i_category_name inst,
               user_version = get_current_user_version fw (i_install_path inst),
               latest_version = get_latest_version fw,
               is_outdated = b\<rparr>"
          by (auto split: if_splits)
        from b b' obtain l u where "get_latest_version fw = Some l"
          "get_current_user_version fw (i_install_path inst) = Some u"
          "is_first_version_higher (Some l) (Some u) = Inr True"
          by (auto simp: outdated_check_True)
        with out cat fw su show ?thesis
          by (intro exI [of _ inst] exI [of _ cat] exI [of _ fw] exI [of _ l] exI [of _ u]) simp
      qed
    qed
  qed
qed

lemma check_updates_sorted:
  "check_updates reg installed = Inr outdated \<Longrightarrow>
   sorted (map i_framework_name installed) \<Longrightarrow>
   sorted (map o_framework_name outdated) \<and>
   set (map o_framework_name outdated) \<subseteq> set (map i_framework_name installed)"
proof (induction installed arbitrary: outdated)
  case Nil
  then show ?case by simp
next
  case (Cons inst rest)
  from Cons.prems(2) have sr: "sorted (map i_framework_name rest)"
    and le: "\<forall>n \<in> set (map i_framework_name rest). i_framework_name inst \<le> n"
    by simp_all
  have keep: "sorted (map o_framework_name outs) \<and>
      set (map o_framework_name outs) \<subseteq> set (map i_framework_name (inst # rest))"
    if "check_updates reg rest = Inr outs" for outs
    using Cons.IH [OF that sr] by auto
  show ?case
  proof (cases "i_category_name inst = ''java'' \<or> i_framework_name inst = ''firefox-dev''")
    case True
    with Cons.prems have "check_updates reg rest = Inr outdated" by auto
    then show ?thesis by (rule keep)
  next
    case nx: False
    with Cons.prems(1) obtain cat fw where cat: "reg (i_category_name inst) = Some cat"
      and fw: "frameworks cat (i_framework_name inst) = Some fw"
      by (auto split: option.splits Option.bind_splits)
    show ?thesis
    proof (cases "supports_update fw")
      case False
      with Cons.prems nx cat fw have "check_updates reg rest = Inr outdated" by simp
      then show ?thesis by (rule keep)
    next
      case su: True
      with Cons.prems(1) nx cat fw obtain b outs where
        outs: "check_updates reg rest = Inr outs"
        and od: "outdated = (if b then
              \<lparr>o_framework_name = i_framework_name inst,
               o_category_name = i_category_name inst,
               user_version = get_current_user_version fw (i_install_path inst),
               latest_version = get_latest_version fw,
               is_outdated = b\<rparr> # outs else outs)"
        by (auto split: sum.splits)
      from Cons.IH [OF outs sr] have so: "sorted (map o_framework_name outs)"
        and sub: "set (map o_framework_name outs) \<subseteq> set (map i_framework_name rest)"
        by simp_all
      show ?thesis
      proof (cases b)
        case False
        with od keep [OF outs] show ?thesis by simp
      next
        case True
        with od so sub le show ?thesis by auto
      qed
    qed
  qed
qed

lemma installed_frameworks_sorted: "sorted (map i_framework_name (installed_frameworks listing))"
  by (simp add: installed_frameworks_def)

text \<open>
  C4. When the list of outdated frameworks is not empty, \<open>main\<close> prints the report,
  parses and runs the command of the first entry of the list, once, and returns: nothing
  is run for the entries behind it. The list is in the order of the framework names.
\<close>

theorem update_runs_first_outdated_only:
  assumes "check_updates reg (installed_frameworks listing) = Inr outdated"
    and "outdated \<noteq> []"
  shows "update_branch reg listing =
           Inr ([PrettyPrintVersions outdated,
                 ParseArgs [o_category_name (hd outdated), o_framework_name (hd outdated)],
                 NewCliUI,
                 RunCommandForArgs [o_category_name (hd outdated), o_framework_name (hd outdated)]],
                Return) \<and>
         sorted (map o_framework_name outdated)"
proof -
  from assms(2) obtain first rest where "outdated = first # rest" by (cases outdated) auto
  with assms(1) have "update_branch reg listing =
           Inr ([PrettyPrintVersions outdated,
                 ParseArgs [o_category_name (hd outdated), o_framework_name (hd outdated)],
                 NewCliUI,
                 RunCommandForArgs [o_category_name (hd outdated), o_framework_name (hd outdated)]],
                Return)"
    by (simp add: update_branch_def)
  moreover have "sorted (map o_framework_name outdated)"
    using check_updates_sorted [OF assms(1) installed_frameworks_sorted] by simp
  ultimately show ?thesis by simp
qed

lemma example_installed:
  "installed_frameworks example_listing =
     [\<lparr>i_framework_name = ''dflt'', i_install_path = ''/opt/dflt'', i_category_name = ''cat''\<rparr>,
      \<lparr>i_framework_name = ''fw'', i_install_path = ''/opt/fw'', i_category_name = ''cat''\<rparr>]"
  by code_simp

lemma example_higher: "is_first_version_higher (Some ''2.0'') (Some ''1.0'') = Inr True"
  by code_simp

lemma example_outdated:
  "check_updates example_registry (installed_frameworks example_listing) =
     Inr [\<lparr>o_framework_name = ''dflt'', o_category_name = ''cat'',
           user_version = Some ''1.0'', latest_version = Some ''2.0'', is_outdated = True\<rparr>,
          \<lparr>o_framework_name = ''fw'', o_category_name = ''cat'',
           user_version = Some ''1.0'', latest_version = Some ''2.0'', is_outdated = True\<rparr>]"
  unfolding example_installed
  by (simp add: example_registry_def example_category_def example_framework_def
        outdated_check_def example_higher)

theorem update_runs_first_outdated_only_witness:
  "check_updates example_registry (installed_frameworks example_listing) =
     Inr [\<lparr>o_framework_name = ''dflt'', o_category_name = ''cat'',
           user_version = Some ''1.0'', latest_version = Some ''2.0'', is_outdated = True\<rparr>,
          \<lparr>o_framework_name = ''fw'', o_category_name = ''cat'',
           user_version = Some ''1.0'', latest_version = Some ''2.0'', is_outdated = True\<rparr>] \<and>
   update_branch example_registry example_listing =
     Inr ([PrettyPrintVersions
             [\<lparr>o_framework_name = ''dflt'', o_category_name = ''cat'',
               user_version = Some ''1.0'', latest_version = Some ''2.0'', is_outdated = True\<rparr>,
              \<lparr>o_framework_name = ''fw'', o_category_name = ''cat'',
               user_version = Some ''1.0'', latest_version = Some ''2.0'', is_outdated = True\<rparr>],
           ParseArgs [''cat'', ''dflt''], NewCliUI, RunCommandForArgs [''cat'', ''dflt'']],
          Return)"
  using update_runs_first_outdated_only [OF example_outdated] example_outdated by simp

text \<open>
  C7. A framework is put on the list of outdated frameworks only when its latest
  version and its installed version are both known and \<open>is_first_version_higher\<close> says
  the latest is higher; with either of them unknown it is not outdated.
\<close>

theorem outdated_needs_both_versions:
  "(latest = None \<or> user = None \<longrightarrow> outdated_check latest user = Inr False) \<and>
   (outdated_check latest user = Inr True \<longleftrightarrow>
      (\<exists>l u. latest = Some l \<and> user = Some u \<and>
         is_first_version_higher (Some l) (Some u) = Inr True)) \<and>
   (check_updates reg installed = Inr outdated \<and> out \<in> set outdated \<longrightarrow>
      (\<exists>inst cat fw l u. inst \<in> set installed \<and>
         o_framework_name out = i_framework_name inst \<and>
         o_category_name out = i_category_name inst \<and>
         reg (i_category_name inst) = Some cat \<and>
         frameworks cat (i_framework_name inst) = Some fw \<and> supports_update fw \<and>
         get_latest_version fw = Some l \<and> latest_version out = Some l \<and>
         get_current_user_version fw (i_install_path inst) = Some u \<and>
         user_version out = Some u \<and>
         is_first_version_higher (Some l) (Some u) = Inr True))"
proof (intro conjI impI)
  assume "latest = None \<or> user = None"
  then show "outdated_check latest user = Inr False"
    by (auto simp: outdated_check_def)
next
  show "outdated_check latest user = Inr True \<longleftrightarrow>
      (\<exists>l u. latest = Some l \<and> user = Some u \<and>
         is_first_version_higher (Some l) (Some u) = Inr True)"
    by (rule outdated_check_True)
next
  assume "check_updates reg installed = Inr outdated \<and> out \<in> set outdated"
  then show "\<exists>inst cat fw l u. inst \<in> set installed \<and>
         o_framework_name out = i_framework_name inst \<and>
         o_category_name out = i_category_name inst \<and>
         reg (i_category_name inst) = Some cat \<and>
         frameworks cat (i_framework_name inst) = Some fw \<and> supports_update fw \<and>
         get_latest_version fw = Some l \<and> latest_version out = Some l \<and>
         get_current_user_version fw (i_install_path inst) = Some u \<and>
         user_version out = Some u \<and>
         is_first_version_higher (Some l) (Some u) = Inr True"
    using check_updates_outdated [of reg installed outdated out] by blast
qed

theorem outdated_needs_both_versions_witness:
  "outdated_check None (Some ''1.0'') = Inr False \<and>
   outdated_check (Some ''2.0'') None = Inr False \<and>
   outdated_check (Some ''2.0'') (Some ''1.0'') = Inr True \<and>
   outdated_check (Some ''1.0'') (Some ''1.0'') \<noteq> Inr True"
proof -
  note inst = outdated_needs_both_versions
  from inst [of None "Some ''1.0''"]
  have 1: "outdated_check None (Some ''1.0'') = Inr False" by simp
  from inst [of "Some ''2.0''" None]
  have 2: "outdated_check (Some ''2.0'') None = Inr False" by simp
  have "is_first_version_higher (Some ''1.0'') (Some ''1.0'') = Inr False" by code_simp
  with inst [of "Some ''2.0''" "Some ''1.0''"] inst [of "Some ''1.0''" "Some ''1.0''"]
    example_higher
  have 3: "outdated_check (Some ''2.0'') (Some ''1.0'') = Inr True"
    and 4: "outdated_check (Some ''1.0'') (Some ''1.0'') \<noteq> Inr True" by simp_all
  from 1 2 3 4 show ?thesis by simp
qed

section \<open>Properties of the renderer\<close>

text \<open>
  C9. For a request of no known kind the renderer logs an error and calls
  \<open>MainLoop().quit(status_code=1)\<close>, whatever the terminal holds; the exit status
  of the loop is then 1, not 0.
\<close>

theorem unknown_content_quits:
  "display (Other description) lines =
     ([LogError (''Unexcepted content type to display to CLI UI: '' @ description),
       MainLoopQuit 1], ReturnNone) \<and>
   (\<exists>status. exit_status (mainloop_after loop (fst (display (Other description) lines))) =
      Some status \<and> status \<noteq> 0)"
  by (simp add: quit_def)

theorem unknown_content_quits_witness:
  "fst (display (Other ''object'') [''y'']) \<noteq> [] \<and>
   (\<exists>status. exit_status (mainloop_after Running (fst (display (Other ''object'') [''y'']))) =
      Some status \<and> status \<noteq> 0)"
  using unknown_content_quits [of "''object''" "[''y'']" Running] by simp

end
